theory Spec2Isabelle
  imports Main "HOL-Library.Word"
begin

unbundle bit_operations_syntax

section \<open>Data model of hb-set-digest.hh\<close>

text \<open>
  \<open>hb_codepoint_t\<close> is \<open>uint32_t\<close>. A bits-pattern filter
  \<open>hb_set_digest_bits_pattern_t<mask_t, shift>\<close> is modelled by its two template
  parameters and its only field: \<open>sizeof (mask_t)\<close>, \<open>shift\<close> and the value of
  \<open>mask\<close>. The mask is an integer; every place where C++ converts a value to
  \<open>mask_t\<close> is written out as \<open>to_mask_t\<close> (reduction modulo \<open>2 ^ mask_bits\<close>).
  For \<open>uint8_t\<close> and \<open>uint16_t\<close> the arithmetic of the source happens in \<open>int\<close>
  after promotion and is truncated on assignment, for the wider types every operation
  wraps; both agree with one reduction of the exact integer result.
\<close>

type_synonym hb_codepoint_t = "32 word"

datatype hb_set_digest_bits_pattern_t = Bits_pattern nat nat int

text \<open>
  A combiner owns a head and a tail, each a bits-pattern filter or again a combiner.
\<close>

datatype hb_set_digest =
    Leaf hb_set_digest_bits_pattern_t
  | Combiner hb_set_digest hb_set_digest

text \<open>\<open>__m256i\<close> seen as eight packed 32-bit lanes.\<close>

datatype m256i = M256i "32 word" "32 word" "32 word" "32 word" "32 word" "32 word" "32 word" "32 word"

section \<open>Constants of a bits-pattern filter\<close>

definition mask_bits :: "nat \<Rightarrow> nat" where
  "mask_bits mask_bytes = mask_bytes * 8"

definition num_bits :: "nat \<Rightarrow> nat" where
  "num_bits mask_bytes = 0
     + (if mask_bytes \<ge> 1 then 3 else 0)
     + (if mask_bytes \<ge> 2 then 1 else 0)
     + (if mask_bytes \<ge> 4 then 1 else 0)
     + (if mask_bytes \<ge> 8 then 1 else 0)
     + (if mask_bytes \<ge> 16 then 1 else 0)
     + 0"

definition to_mask_t :: "nat \<Rightarrow> int \<Rightarrow> int" where
  "to_mask_t mask_bytes x = take_bit (mask_bits mask_bytes) x"

text \<open>
  A filter that exists: \<open>mask_t\<close> is an unsigned integer type, of 1, 2, 4, 8 or 16
  bytes, the two \<open>static_assert\<close>s of the struct hold, and the mask is a value of
  \<open>mask_t\<close>.
\<close>

definition mask_bytes_ok :: "nat \<Rightarrow> bool" where
  "mask_bytes_ok mask_bytes = (mask_bytes \<in> {1, 2, 4, 8, 16})"

fun bits_pattern_valid :: "hb_set_digest_bits_pattern_t \<Rightarrow> bool" where
  "bits_pattern_valid (Bits_pattern mask_bytes shift m) =
     (mask_bytes_ok mask_bytes \<and> shift < 32 \<and> shift + num_bits mask_bytes \<le> 32
      \<and> 0 \<le> m \<and> m < 2 ^ mask_bits mask_bytes)"

fun valid :: "hb_set_digest \<Rightarrow> bool" where
  "valid (Leaf p) = bits_pattern_valid p"
| "valid (Combiner head tail) = (valid head \<and> valid tail)"

section \<open>hb_set_digest_bits_pattern_t\<close>

definition mask_for :: "nat \<Rightarrow> nat \<Rightarrow> hb_codepoint_t \<Rightarrow> int" where
  "mask_for mask_bytes shift g =
     to_mask_t mask_bytes
       (push_bit (unat (drop_bit shift g AND word_of_nat (mask_bits mask_bytes - 1))) 1)"

fun bits_pattern_init :: "hb_set_digest_bits_pattern_t \<Rightarrow> hb_set_digest_bits_pattern_t" where
  "bits_pattern_init (Bits_pattern mask_bytes shift m) = Bits_pattern mask_bytes shift 0"

fun bits_pattern_add ::
  "hb_set_digest_bits_pattern_t \<Rightarrow> hb_codepoint_t \<Rightarrow> hb_set_digest_bits_pattern_t" where
  "bits_pattern_add (Bits_pattern mask_bytes shift m) g =
     Bits_pattern mask_bytes shift (m OR mask_for mask_bytes shift g)"

fun bits_pattern_add_range ::
  "hb_set_digest_bits_pattern_t \<Rightarrow> hb_codepoint_t \<Rightarrow> hb_codepoint_t
     \<Rightarrow> hb_set_digest_bits_pattern_t \<times> bool" where
  "bits_pattern_add_range (Bits_pattern mask_bytes shift m) a b =
     (if drop_bit shift b - drop_bit shift a \<ge> word_of_nat (mask_bits mask_bytes - 1)
      then (Bits_pattern mask_bytes shift (to_mask_t mask_bytes (- 1)), True)
      else
        let ma = mask_for mask_bytes shift a;
            mb = mask_for mask_bytes shift b
        in (Bits_pattern mask_bytes shift
              (m OR to_mask_t mask_bytes (mb + (mb - ma) - (if mb < ma then 1 else 0))), True))"

text \<open>
  The arrays: \<open>deref\<close> gives the codepoint that \<open>*array\<close> converts to at a byte
  address, \<open>array\<close> is the address, and each round of the loop moves it on by
  \<open>stride\<close> bytes. The overloads for \<open>hb_array_t\<close> and \<open>hb_sorted_array_t\<close> call
  these two with the array and its length.
\<close>

fun bits_pattern_add_array ::
  "hb_set_digest_bits_pattern_t \<Rightarrow> (nat \<Rightarrow> hb_codepoint_t) \<Rightarrow> nat \<Rightarrow> nat \<Rightarrow> nat
     \<Rightarrow> hb_set_digest_bits_pattern_t" where
  "bits_pattern_add_array p deref array 0 stride = p"
| "bits_pattern_add_array p deref array (Suc count) stride =
     bits_pattern_add_array (bits_pattern_add p (deref array)) deref (array + stride) count stride"

fun bits_pattern_add_sorted_array ::
  "hb_set_digest_bits_pattern_t \<Rightarrow> (nat \<Rightarrow> hb_codepoint_t) \<Rightarrow> nat \<Rightarrow> nat \<Rightarrow> nat
     \<Rightarrow> hb_set_digest_bits_pattern_t \<times> bool" where
  "bits_pattern_add_sorted_array p deref array 0 stride = (p, True)"
| "bits_pattern_add_sorted_array p deref array (Suc count) stride =
     bits_pattern_add_sorted_array (bits_pattern_add p (deref array)) deref (array + stride)
       count stride"

fun bits_pattern_may_have :: "hb_set_digest_bits_pattern_t \<Rightarrow> hb_codepoint_t \<Rightarrow> bool" where
  "bits_pattern_may_have (Bits_pattern mask_bytes shift m) g =
     (m AND mask_for mask_bytes shift g \<noteq> 0)"

subsection \<open>The AVX2 query\<close>

text \<open>
  The intrinsics of \<open>x86intrin.h\<close> that the source calls, lane by lane as the
  instruction set reference describes them: \<open>vpsrld\<close> and \<open>vpsllvd\<close> give 0 in a
  lane whose count exceeds 31, \<open>vptest\<close> sets ZF when the AND of its operands is zero.
\<close>

fun epi32 :: "m256i \<Rightarrow> 32 word list" where
  "epi32 (M256i e0 e1 e2 e3 e4 e5 e6 e7) = [e0, e1, e2, e3, e4, e5, e6, e7]"

fun map_epi32 :: "(32 word \<Rightarrow> 32 word) \<Rightarrow> m256i \<Rightarrow> m256i" where
  "map_epi32 f (M256i e0 e1 e2 e3 e4 e5 e6 e7) =
     M256i (f e0) (f e1) (f e2) (f e3) (f e4) (f e5) (f e6) (f e7)"

fun map2_epi32 :: "(32 word \<Rightarrow> 32 word \<Rightarrow> 32 word) \<Rightarrow> m256i \<Rightarrow> m256i \<Rightarrow> m256i" where
  "map2_epi32 f (M256i a0 a1 a2 a3 a4 a5 a6 a7) (M256i b0 b1 b2 b3 b4 b5 b6 b7) =
     M256i (f a0 b0) (f a1 b1) (f a2 b2) (f a3 b3) (f a4 b4) (f a5 b5) (f a6 b6) (f a7 b7)"

definition mm256_set1_epi32 :: "32 word \<Rightarrow> m256i" where
  "mm256_set1_epi32 a = M256i a a a a a a a a"

definition mm256_and_si256 :: "m256i \<Rightarrow> m256i \<Rightarrow> m256i" where
  "mm256_and_si256 a b = map2_epi32 (\<lambda>x y. x AND y) a b"

definition mm256_srli_epi32 :: "m256i \<Rightarrow> nat \<Rightarrow> m256i" where
  "mm256_srli_epi32 a imm8 = map_epi32 (\<lambda>x. if imm8 > 31 then 0 else drop_bit imm8 x) a"

definition mm256_sllv_epi32 :: "m256i \<Rightarrow> m256i \<Rightarrow> m256i" where
  "mm256_sllv_epi32 a cnt =
     map2_epi32 (\<lambda>x c. if unat c > 31 then 0 else push_bit (unat c) x) a cnt"

definition mm256_testz_si256 :: "m256i \<Rightarrow> m256i \<Rightarrow> int" where
  "mm256_testz_si256 a b =
     (if list_all (\<lambda>x. x = 0) (epi32 (mm256_and_si256 a b)) then 1 else 0)"

definition m256_is_not_zero :: "m256i \<Rightarrow> bool" where
  "m256_is_not_zero v = (mm256_testz_si256 v v = 0)"

definition shifted :: "nat \<Rightarrow> m256i \<Rightarrow> m256i" where
  "shifted shift v = (if shift = 0 then v else mm256_srli_epi32 v shift)"

definition mask_for_m256i :: "nat \<Rightarrow> nat \<Rightarrow> m256i \<Rightarrow> m256i" where
  "mask_for_m256i mask_bytes shift g =
     (let a = mm256_and_si256 (shifted shift g)
                (mm256_set1_epi32 (word_of_nat (mask_bits mask_bytes - 1)))
      in mm256_sllv_epi32 (mm256_set1_epi32 1) a)"

text \<open>
  \<open>_mm256_set1_epi32 (mask)\<close> takes an \<open>int\<close>: the mask is converted to 32 bits,
  which keeps a narrower mask as it is and cuts a wider one.
\<close>

fun bits_pattern_may_have_m256i :: "hb_set_digest_bits_pattern_t \<Rightarrow> m256i \<Rightarrow> bool" where
  "bits_pattern_may_have_m256i (Bits_pattern mask_bytes shift m) g =
     m256_is_not_zero
       (mm256_and_si256 (mm256_set1_epi32 (word_of_int m)) (mask_for_m256i mask_bytes shift g))"

section \<open>hb_set_digest_combiner_t\<close>

fun init :: "hb_set_digest \<Rightarrow> hb_set_digest" where
  "init (Leaf p) = Leaf (bits_pattern_init p)"
| "init (Combiner head tail) = Combiner (init head) (init tail)"

fun add :: "hb_set_digest \<Rightarrow> hb_codepoint_t \<Rightarrow> hb_set_digest" where
  "add (Leaf p) g = Leaf (bits_pattern_add p g)"
| "add (Combiner head tail) g = Combiner (add head g) (add tail g)"

fun add_range :: "hb_set_digest \<Rightarrow> hb_codepoint_t \<Rightarrow> hb_codepoint_t \<Rightarrow> hb_set_digest \<times> bool" where
  "add_range (Leaf p) a b = (Leaf (fst (bits_pattern_add_range p a b)), snd (bits_pattern_add_range p a b))"
| "add_range (Combiner head tail) a b =
     (Combiner (fst (add_range head a b)) (fst (add_range tail a b)), True)"

fun add_array ::
  "hb_set_digest \<Rightarrow> (nat \<Rightarrow> hb_codepoint_t) \<Rightarrow> nat \<Rightarrow> nat \<Rightarrow> nat \<Rightarrow> hb_set_digest" where
  "add_array (Leaf p) deref array count stride =
     Leaf (bits_pattern_add_array p deref array count stride)"
| "add_array (Combiner head tail) deref array count stride =
     Combiner (add_array head deref array count stride) (add_array tail deref array count stride)"

fun add_sorted_array ::
  "hb_set_digest \<Rightarrow> (nat \<Rightarrow> hb_codepoint_t) \<Rightarrow> nat \<Rightarrow> nat \<Rightarrow> nat \<Rightarrow> hb_set_digest \<times> bool" where
  "add_sorted_array (Leaf p) deref array count stride =
     (Leaf (fst (bits_pattern_add_sorted_array p deref array count stride)),
      snd (bits_pattern_add_sorted_array p deref array count stride))"
| "add_sorted_array (Combiner head tail) deref array count stride =
     (Combiner (fst (add_sorted_array head deref array count stride))
               (fst (add_sorted_array tail deref array count stride)), True)"

fun may_have :: "hb_set_digest \<Rightarrow> hb_codepoint_t \<Rightarrow> bool" where
  "may_have (Leaf p) g = bits_pattern_may_have p g"
| "may_have (Combiner head tail) g = (may_have head g \<and> may_have tail g)"

fun may_have_m256i :: "hb_set_digest \<Rightarrow> m256i \<Rightarrow> bool" where
  "may_have_m256i (Leaf p) g = bits_pattern_may_have_m256i p g"
| "may_have_m256i (Combiner head tail) g = (may_have_m256i head g \<and> may_have_m256i tail g)"

section \<open>hb_set_digest_t\<close>

text \<open>
  The production digest: \<open>uint32_t\<close> masks at shifts 4, 0 and 9. The argument is the
  content of the three masks, which a declaration leaves uninitialised.
\<close>

definition hb_set_digest_t :: "int \<Rightarrow> int \<Rightarrow> int \<Rightarrow> hb_set_digest" where
  "hb_set_digest_t m4 m0 m9 =
     Combiner (Leaf (Bits_pattern 4 4 m4))
       (Combiner (Leaf (Bits_pattern 4 0 m0)) (Leaf (Bits_pattern 4 9 m9)))"

section \<open>Calls and traces\<close>

text \<open>
  A call of one of the public member functions with its arguments, the value it
  returns, and the object after it. The two queries are \<open>const\<close> member functions
  whose bodies assign nothing, so the object after them is the object before.
\<close>

datatype call =
    Init
  | Add hb_codepoint_t
  | Add_range hb_codepoint_t hb_codepoint_t
  | Add_array "nat \<Rightarrow> hb_codepoint_t" nat nat nat
  | Add_sorted_array "nat \<Rightarrow> hb_codepoint_t" nat nat nat
  | May_have hb_codepoint_t
  | May_have_m256i m256i

datatype retval = Void | Bool bool

fun exec :: "hb_set_digest \<Rightarrow> call \<Rightarrow> hb_set_digest \<times> retval" where
  "exec d Init = (init d, Void)"
| "exec d (Add g) = (add d g, Void)"
| "exec d (Add_range a b) = (fst (add_range d a b), Bool (snd (add_range d a b)))"
| "exec d (Add_array deref array count stride) = (add_array d deref array count stride, Void)"
| "exec d (Add_sorted_array deref array count stride) =
     (fst (add_sorted_array d deref array count stride),
      Bool (snd (add_sorted_array d deref array count stride)))"
| "exec d (May_have g) = (d, Bool (may_have d g))"
| "exec d (May_have_m256i g) = (d, Bool (may_have_m256i d g))"

fun run :: "hb_set_digest \<Rightarrow> call list \<Rightarrow> hb_set_digest" where
  "run d [] = d"
| "run d (c # cs) = run (fst (exec d c)) cs"

section \<open>Notions of the specification\<close>

text \<open>
  The specification speaks of \<open>num_buckets = 2 ^ num_bits\<close> and of the bucket of a
  codepoint, \<open>bucket(c) = (c >> shift) & (num_buckets - 1)\<close>.
\<close>

definition num_buckets :: "nat \<Rightarrow> nat" where
  "num_buckets mask_bytes = 2 ^ num_bits mask_bytes"

definition bucket :: "nat \<Rightarrow> nat \<Rightarrow> hb_codepoint_t \<Rightarrow> nat" where
  "bucket mask_bytes shift c =
     unat (drop_bit shift c AND word_of_nat (num_buckets mask_bytes - 1))"

definition all_ones :: "nat \<Rightarrow> int" where
  "all_ones mask_bytes = 2 ^ mask_bits mask_bytes - 1"

fun mask_of :: "hb_set_digest_bits_pattern_t \<Rightarrow> int" where
  "mask_of (Bits_pattern mask_bytes shift m) = m"

text \<open>The masks of a digest, head before tail.\<close>

fun masks :: "hb_set_digest \<Rightarrow> int list" where
  "masks (Leaf p) = [mask_of p]"
| "masks (Combiner head tail) = masks head @ masks tail"

text \<open>The codepoints of the range \<open>[a, b]\<close>, and \<open>add\<close> called for each of a list.\<close>

definition codepoints :: "hb_codepoint_t \<Rightarrow> hb_codepoint_t \<Rightarrow> hb_codepoint_t list" where
  "codepoints a b = map word_of_nat [unat a ..< Suc (unat b)]"

definition add_each ::
  "hb_set_digest_bits_pattern_t \<Rightarrow> hb_codepoint_t list \<Rightarrow> hb_set_digest_bits_pattern_t" where
  "add_each p cs = foldl bits_pattern_add p cs"

text \<open>The elements that the loop over an array reads.\<close>

definition array_elements ::
  "(nat \<Rightarrow> hb_codepoint_t) \<Rightarrow> nat \<Rightarrow> nat \<Rightarrow> nat \<Rightarrow> hb_codepoint_t list" where
  "array_elements deref array count stride = map (\<lambda>i. deref (array + i * stride)) [0 ..< count]"

text \<open>
  The calls that populate a filter, the same with the precondition \<open>a \<le> b\<close> of
  \<open>add_range\<close>, the queries, and the logical set that a populating call adds.
\<close>

fun is_add_call :: "call \<Rightarrow> bool" where
  "is_add_call (Add g) = True"
| "is_add_call (Add_range a b) = True"
| "is_add_call (Add_array deref array count stride) = True"
| "is_add_call (Add_sorted_array deref array count stride) = True"
| "is_add_call c = False"

fun populates :: "call \<Rightarrow> bool" where
  "populates (Add_range a b) = (a \<le> b)"
| "populates c = is_add_call c"

fun is_query :: "call \<Rightarrow> bool" where
  "is_query (May_have g) = True"
| "is_query (May_have_m256i g) = True"
| "is_query c = False"

fun in_call :: "call \<Rightarrow> hb_codepoint_t \<Rightarrow> bool" where
  "in_call (Add g) c = (c = g)"
| "in_call (Add_range a b) c = (a \<le> c \<and> c \<le> b)"
| "in_call (Add_array deref array count stride) c =
     (c \<in> set (array_elements deref array count stride))"
| "in_call (Add_sorted_array deref array count stride) c =
     (c \<in> set (array_elements deref array count stride))"
| "in_call call c = False"

definition in_logical_set :: "call list \<Rightarrow> hb_codepoint_t \<Rightarrow> bool" where
  "in_logical_set calls c = list_ex (\<lambda>call. in_call call c) calls"

text \<open>
  A mask that has every set bit of another, and a digest of the same shape as another
  whose masks have every set bit of the masks of the other.
\<close>

definition keeps_bits :: "int \<Rightarrow> int \<Rightarrow> bool" where
  "keeps_bits m m' = (m AND m' = m)"

fun grows :: "hb_set_digest \<Rightarrow> hb_set_digest \<Rightarrow> bool" where
  "grows (Leaf (Bits_pattern mask_bytes shift m)) (Leaf (Bits_pattern mask_bytes' shift' m')) =
     (mask_bytes' = mask_bytes \<and> shift' = shift \<and> keeps_bits m m')"
| "grows (Combiner head tail) (Combiner head' tail') = (grows head head' \<and> grows tail tail')"
| "grows d d' = False"

text \<open>What \<open>mask_for\<close> on \<open>__m256i\<close> computes in one lane.\<close>

definition lane_mask_for :: "nat \<Rightarrow> nat \<Rightarrow> 32 word \<Rightarrow> 32 word" where
  "lane_mask_for mask_bytes shift x =
     (let c = (if shift = 0 then x else if shift > 31 then 0 else drop_bit shift x)
                AND word_of_nat (mask_bits mask_bytes - 1)
      in if unat c > 31 then 0 else push_bit (unat c) 1)"

section \<open>Buckets and single-bit masks\<close>

lemma mask_bits_eq_num_buckets:
  "mask_bytes_ok mask_bytes \<Longrightarrow> mask_bits mask_bytes = num_buckets mask_bytes"
  by (auto simp: mask_bytes_ok_def mask_bits_def num_bits_def num_buckets_def)

lemma mask_bits_pos: "mask_bytes_ok mask_bytes \<Longrightarrow> 8 \<le> mask_bits mask_bytes"
  by (auto simp: mask_bytes_ok_def mask_bits_def)

lemma mask_bits_le: "mask_bytes_ok mask_bytes \<Longrightarrow> mask_bits mask_bytes \<le> 128"
  by (auto simp: mask_bytes_ok_def mask_bits_def)

lemma word_of_nat_mask_bits:
  assumes "mask_bytes_ok mask_bytes"
  shows "(word_of_nat (mask_bits mask_bytes - 1) :: 32 word) = mask (num_bits mask_bytes)"
  using assms by (auto simp: mask_bytes_ok_def mask_bits_def num_bits_def mask_numeral)

lemma unat_shifted: "unat (drop_bit shift g) = unat g div 2 ^ shift"
  for g :: hb_codepoint_t
  by (simp only: unat_drop_bit_eq) (simp only: drop_bit_eq_div)

lemma unat_masked_shift:
  fixes g :: hb_codepoint_t
  assumes "mask_bytes_ok mask_bytes"
  shows "unat (drop_bit shift g AND word_of_nat (mask_bits mask_bytes - 1))
           = (unat g div 2 ^ shift) mod mask_bits mask_bytes"
proof -
  have "unat (drop_bit shift g AND mask (num_bits mask_bytes))
          = unat (drop_bit shift g) mod 2 ^ num_bits mask_bytes"
    using unsigned_take_bit_eq [of "num_bits mask_bytes" "drop_bit shift g", where ?'a = nat]
    by (simp only: take_bit_eq_mask) (simp only: flip: take_bit_eq_mask take_bit_eq_mod)
  then show ?thesis
    by (simp only: word_of_nat_mask_bits [OF assms] unat_shifted)
      (simp only: mask_bits_eq_num_buckets [OF assms] num_buckets_def)
qed

lemma bucket_eq:
  assumes "mask_bytes_ok mask_bytes"
  shows "bucket mask_bytes shift g = (unat g div 2 ^ shift) mod mask_bits mask_bytes"
  using unat_masked_shift [OF assms, of shift g]
  by (simp only: bucket_def mask_bits_eq_num_buckets [OF assms])

lemma bucket_less:
  "mask_bytes_ok mask_bytes \<Longrightarrow> bucket mask_bytes shift g < mask_bits mask_bytes"
  using mask_bits_pos [of mask_bytes] by (simp add: bucket_eq)

lemma mask_for_eq:
  assumes "mask_bytes_ok mask_bytes"
  shows "mask_for mask_bytes shift g = 2 ^ bucket mask_bytes shift g"
proof -
  have "take_bit (mask_bits mask_bytes) ((2::int) ^ bucket mask_bytes shift g)
          = 2 ^ bucket mask_bytes shift g"
    using bucket_less [OF assms, of shift g] by (simp add: take_bit_int_eq_self)
  then show ?thesis
    unfolding mask_for_def to_mask_t_def unat_masked_shift [OF assms] bucket_eq [OF assms]
    by simp
qed

lemma and_exp_int_bit: "(m :: int) AND 2 ^ k \<noteq> 0 \<longleftrightarrow> bit m k"
  using bit_iff_and_push_bit_not_eq_0 [of m k] by simp

lemma bits_pattern_may_have_bit:
  "mask_bytes_ok mask_bytes \<Longrightarrow>
     bits_pattern_may_have (Bits_pattern mask_bytes shift m) g
       \<longleftrightarrow> bit m (bucket mask_bytes shift g)"
  by (simp add: mask_for_eq and_exp_int_bit)

lemma bit_mask_value_less:
  fixes m :: int
  assumes "0 \<le> m" "m < 2 ^ W" "bit m n"
  shows "n < W"
proof -
  have "take_bit W m = m"
    using assms by (simp add: take_bit_int_eq_self)
  then have "bit (take_bit W m) n"
    using assms by simp
  then show ?thesis by (simp add: bit_take_bit_iff)
qed

section \<open>The run of bits that add_range computes\<close>

lemma run_low_high:
  fixes i j :: nat
  assumes "i \<le> j"
  shows "(2::int) ^ j + (2 ^ j - 2 ^ i) - (if (2::int) ^ j < 2 ^ i then 1 else 0)
           = push_bit i (mask (Suc j - i))"
proof -
  have "(2::int) ^ i * 2 ^ (Suc j - i) = 2 ^ Suc j"
    using assms by (simp flip: power_add)
  then have "push_bit i (mask (Suc j - i)) = (2::int) ^ Suc j - 2 ^ i"
    by (simp add: push_bit_eq_mult mask_eq_exp_minus_1 algebra_simps)
  moreover have "\<not> (2::int) ^ j < 2 ^ i"
    using assms by simp
  ultimately show ?thesis by simp
qed

lemma run_wrapped:
  fixes i j :: nat
  assumes "j < i"
  shows "(2::int) ^ j + (2 ^ j - 2 ^ i) - (if (2::int) ^ j < 2 ^ i then 1 else 0)
           = mask (Suc j) OR NOT (mask i)"
proof -
  have "mask (Suc j) + NOT (mask i) = mask (Suc j) OR NOT (mask i :: int)"
    using assms by (intro disjunctive_add) (auto simp: bit_simps)
  moreover have "mask (Suc j) + NOT (mask i) = (2::int) ^ Suc j - 2 ^ i - 1"
    by (simp add: mask_eq_exp_minus_1 not_int_def)
  moreover have "(2::int) ^ j < 2 ^ i"
    using assms by simp
  ultimately show ?thesis by simp
qed

lemma bit_run:
  fixes i j :: nat
  shows "bit (take_bit W ((2::int) ^ j + (2 ^ j - 2 ^ i) - (if (2::int) ^ j < 2 ^ i then 1 else 0))) n
           \<longleftrightarrow> n < W \<and> (if i \<le> j then i \<le> n \<and> n \<le> j else n \<le> j \<or> i \<le> n)"
proof (cases "i \<le> j")
  case True
  show ?thesis
    unfolding run_low_high [OF True] using True by (auto simp: bit_simps)
next
  case False
  then have "j < i" by simp
  show ?thesis
    unfolding run_wrapped [OF \<open>j < i\<close>] using False by (auto simp: bit_simps)
qed

section \<open>Buckets met by a range of codepoints\<close>

lemma mod_add_small:
  fixes i e W :: nat
  assumes "i < W" "e < W"
  shows "(i + e) mod W = (if i + e < W then i + e else i + e - W)"
  using assms by (simp add: mod_if)

lemma mod_add_offset:
  fixes A e W :: nat
  assumes "0 < W" "e < W"
  shows "(A + e) mod W = (if A mod W + e < W then A mod W + e else A mod W + e - W)"
proof -
  have "(A + e) mod W = (A mod W + e) mod W"
    by (simp add: mod_add_left_eq)
  then show ?thesis
    using mod_add_small [of "A mod W" W e] assms by simp
qed

lemma residues_of_interval_narrow:
  fixes A B W n :: nat
  assumes W: "0 < W" and AB: "A \<le> B" and narrow: "B - A < W - 1" and n: "n < W"
  shows "(\<exists>v. A \<le> v \<and> v \<le> B \<and> v mod W = n) \<longleftrightarrow>
         (if A mod W \<le> B mod W then A mod W \<le> n \<and> n \<le> B mod W
          else n \<le> B mod W \<or> A mod W \<le> n)"
proof -
  define i where "i = A mod W"
  define d where "d = B - A"
  have B: "B = A + d" using AB by (simp add: d_def)
  have i: "i < W" using W by (simp add: i_def)
  have d: "d < W - 1" using narrow by (simp add: d_def)
  have off: "(A + e) mod W = (if i + e < W then i + e else i + e - W)" if "e < W" for e
    using mod_add_offset [OF W that, of A] by (simp add: i_def)
  have j: "B mod W = (if i + d < W then i + d else i + d - W)"
    unfolding B using off [of d] d by simp
  show ?thesis
  proof
    assume "\<exists>v. A \<le> v \<and> v \<le> B \<and> v mod W = n"
    then obtain v where v: "A \<le> v" "v \<le> B" "v mod W = n" by blast
    define e where "e = v - A"
    have ve: "v = A + e" and ed: "e \<le> d" using v B by (simp_all add: e_def)
    have "n = (if i + e < W then i + e else i + e - W)"
      using off [of e] ed d v(3) ve by simp
    then show "if A mod W \<le> B mod W then A mod W \<le> n \<and> n \<le> B mod W
          else n \<le> B mod W \<or> A mod W \<le> n"
      unfolding j i_def [symmetric] using ed d i by (auto split: if_splits)
  next
    assume R: "if A mod W \<le> B mod W then A mod W \<le> n \<and> n \<le> B mod W
          else n \<le> B mod W \<or> A mod W \<le> n"
    define e where "e = (if i \<le> n then n - i else W - i + n)"
    have eW: "e < W" using i n by (auto simp: e_def)
    have "e \<le> d"
      using R unfolding j i_def [symmetric] e_def using i n d by (auto split: if_splits)
    moreover have "(A + e) mod W = n"
      using off [OF eW] i n by (auto simp: e_def)
    ultimately have "A \<le> A + e \<and> A + e \<le> B \<and> (A + e) mod W = n"
      by (simp add: B)
    then show "\<exists>v. A \<le> v \<and> v \<le> B \<and> v mod W = n" by blast
  qed
qed

lemma residues_of_interval_wide:
  fixes A B W n :: nat
  assumes W: "0 < W" and AB: "A \<le> B" and wide: "W - 1 \<le> B - A" and n: "n < W"
  shows "\<exists>v. A \<le> v \<and> v \<le> B \<and> v mod W = n"
proof -
  define i where "i = A mod W"
  have i: "i < W" using W by (simp add: i_def)
  define e where "e = (if i \<le> n then n - i else W - i + n)"
  have eW: "e < W" using i n by (auto simp: e_def)
  have "(A + e) mod W = (if i + e < W then i + e else i + e - W)"
    using mod_add_offset [OF W eW, of A] by (simp add: i_def)
  then have "(A + e) mod W = n"
    using i n by (auto simp: e_def)
  moreover have "A + e \<le> B"
    using wide eW AB by arith
  ultimately show ?thesis
    by (intro exI [of _ "A + e"]) simp
qed

lemma shifted_values_of_interval:
  fixes a b :: hb_codepoint_t
  assumes ab: "a \<le> b"
  shows "(\<exists>c. a \<le> c \<and> c \<le> b \<and> unat c div 2 ^ shift = v) \<longleftrightarrow>
         unat a div 2 ^ shift \<le> v \<and> v \<le> unat b div 2 ^ shift"
proof
  assume "\<exists>c. a \<le> c \<and> c \<le> b \<and> unat c div 2 ^ shift = v"
  then obtain c where "a \<le> c" "c \<le> b" "unat c div 2 ^ shift = v"
    by blast
  then have "unat a \<le> unat c" "unat c \<le> unat b" "unat c div 2 ^ shift = v"
    by (simp_all add: word_le_nat_alt)
  then show "unat a div 2 ^ shift \<le> v \<and> v \<le> unat b div 2 ^ shift"
    using div_le_mono [of "unat a" "unat c" "2 ^ shift"] div_le_mono [of "unat c" "unat b" "2 ^ shift"]
    by auto
next
  assume R: "unat a div 2 ^ shift \<le> v \<and> v \<le> unat b div 2 ^ shift"
  define x where "x = max (unat a) (v * 2 ^ shift)"
  have "v * 2 ^ shift \<le> (unat b div 2 ^ shift) * 2 ^ shift"
    using R by simp
  also have "\<dots> \<le> unat b"
    by simp
  finally have xb: "x \<le> unat b"
    using ab by (simp add: x_def word_le_nat_alt)
  have xa: "unat a \<le> x" by (simp add: x_def)
  have "x div 2 ^ shift = v"
  proof (cases "unat a \<le> v * 2 ^ shift")
    case True
    then show ?thesis by (simp add: x_def max_def)
  next
    case False
    then have "x = unat a" by (simp add: x_def max_def)
    moreover have "v \<le> unat a div 2 ^ shift"
      using False by (simp add: less_eq_div_iff_mult_less_eq)
    ultimately show ?thesis using R by simp
  qed
  moreover have "unat (word_of_nat x :: hb_codepoint_t) = x"
    using xb by (rule le_unat_uoi)
  ultimately have "a \<le> word_of_nat x \<and> word_of_nat x \<le> b
      \<and> unat (word_of_nat x :: hb_codepoint_t) div 2 ^ shift = v"
    using xa xb by (simp add: word_le_nat_alt)
  then show "\<exists>c. a \<le> c \<and> c \<le> b \<and> unat c div 2 ^ shift = v" by blast
qed

lemma buckets_of_interval:
  fixes a b :: hb_codepoint_t
  assumes ok: "mask_bytes_ok mask_bytes" and "a \<le> b"
  shows "(\<exists>c. a \<le> c \<and> c \<le> b \<and> bucket mask_bytes shift c = n) \<longleftrightarrow>
         (\<exists>v. unat a div 2 ^ shift \<le> v \<and> v \<le> unat b div 2 ^ shift
              \<and> v mod mask_bits mask_bytes = n)"
  using shifted_values_of_interval [OF assms(2), of shift]
  unfolding bucket_eq [OF ok] by metis

lemma saturation_test:
  fixes a b :: hb_codepoint_t
  assumes ok: "mask_bytes_ok mask_bytes" and ab: "a \<le> b"
  shows "(word_of_nat (mask_bits mask_bytes - 1) \<le> drop_bit shift b - drop_bit shift a)
           \<longleftrightarrow> mask_bits mask_bytes - 1 \<le> unat b div 2 ^ shift - unat a div 2 ^ shift"
proof -
  note sh = unat_shifted
  have "unat a div 2 ^ shift \<le> unat b div 2 ^ shift"
    using ab by (simp add: word_le_nat_alt div_le_mono)
  then have "drop_bit shift a \<le> drop_bit shift b"
    by (simp only: word_le_nat_alt sh)
  then have "unat (drop_bit shift b - drop_bit shift a)
               = unat b div 2 ^ shift - unat a div 2 ^ shift"
    by (simp only: unat_sub sh)
  moreover have "unat (word_of_nat (mask_bits mask_bytes - 1) :: hb_codepoint_t)
                   = mask_bits mask_bytes - 1"
    using ok by (auto simp: mask_bytes_ok_def mask_bits_def)
  ultimately show ?thesis
    by (simp only: word_le_nat_alt)
qed

section \<open>The bits of the mask after add_range\<close>

lemma bit_bits_pattern_add_range:
  assumes ok: "mask_bytes_ok mask_bytes" and m: "0 \<le> m" "m < 2 ^ mask_bits mask_bytes"
    and ab: "a \<le> b"
  shows "bit (mask_of (fst (bits_pattern_add_range (Bits_pattern mask_bytes shift m) a b))) n
           \<longleftrightarrow> bit m n \<or> (\<exists>c. a \<le> c \<and> c \<le> b \<and> bucket mask_bytes shift c = n)"
proof -
  let ?W = "mask_bits mask_bytes"
  let ?A = "unat a div 2 ^ shift" and ?B = "unat b div 2 ^ shift"
  have W: "0 < ?W" using mask_bits_pos [OF ok] by simp
  have AB: "?A \<le> ?B" using ab by (simp add: word_le_nat_alt div_le_mono)
  have in_range: "n < ?W" if "\<exists>c. a \<le> c \<and> c \<le> b \<and> bucket mask_bytes shift c = n"
    using that bucket_less [OF ok] by blast
  show ?thesis
  proof (cases "?W - 1 \<le> ?B - ?A")
    case True
    have "(\<exists>c. a \<le> c \<and> c \<le> b \<and> bucket mask_bytes shift c = n)" if "n < ?W"
      unfolding buckets_of_interval [OF ok ab]
      using residues_of_interval_wide [OF W AB True that] .
    then have "bit m n \<or> (\<exists>c. a \<le> c \<and> c \<le> b \<and> bucket mask_bytes shift c = n) \<longleftrightarrow> n < ?W"
      using in_range bit_mask_value_less [OF m] by blast
    moreover have "bit (mask_of (fst (bits_pattern_add_range (Bits_pattern mask_bytes shift m) a b))) n
       \<longleftrightarrow> n < ?W"
    proof -
      have "word_of_nat (?W - 1) \<le> drop_bit shift b - drop_bit shift a"
        using True by (simp only: saturation_test [OF ok ab] simp_thms)
      then have "mask_of (fst (bits_pattern_add_range (Bits_pattern mask_bytes shift m) a b))
                   = take_bit ?W (- 1)"
        by (simp only: bits_pattern_add_range.simps if_True fst_conv mask_of.simps to_mask_t_def)
      then show ?thesis by (simp add: bit_simps)
    qed
    ultimately show ?thesis by simp
  next
    case False
    then have narrow: "?B - ?A < ?W - 1" by simp
    have "bit (mask_of (fst (bits_pattern_add_range (Bits_pattern mask_bytes shift m) a b))) n
       \<longleftrightarrow> bit m n \<or> (n < ?W \<and>
            (if bucket mask_bytes shift a \<le> bucket mask_bytes shift b
             then bucket mask_bytes shift a \<le> n \<and> n \<le> bucket mask_bytes shift b
             else n \<le> bucket mask_bytes shift b \<or> bucket mask_bytes shift a \<le> n))"
    proof -
      have "\<not> word_of_nat (?W - 1) \<le> drop_bit shift b - drop_bit shift a"
        using False by (simp only: saturation_test [OF ok ab] not_False_eq_True)
      then have "mask_of (fst (bits_pattern_add_range (Bits_pattern mask_bytes shift m) a b))
                   = m OR take_bit ?W
                       (2 ^ bucket mask_bytes shift b
                        + (2 ^ bucket mask_bytes shift b - 2 ^ bucket mask_bytes shift a)
                        - (if (2::int) ^ bucket mask_bytes shift b < 2 ^ bucket mask_bytes shift a
                           then 1 else 0))"
        by (simp only: bits_pattern_add_range.simps if_False Let_def fst_conv mask_of.simps
              to_mask_t_def mask_for_eq [OF ok])
      then show ?thesis
        by (simp only: bit_or_iff bit_run)
    qed
    also have "\<dots> \<longleftrightarrow> bit m n \<or> (\<exists>c. a \<le> c \<and> c \<le> b \<and> bucket mask_bytes shift c = n)"
    proof (cases "n < ?W")
      case True
      show ?thesis
        unfolding buckets_of_interval [OF ok ab]
          residues_of_interval_narrow [OF W AB narrow True]
        using True by (simp add: bucket_eq [OF ok])
    next
      case False
      then show ?thesis using in_range by blast
    qed
    finally show ?thesis .
  qed
qed

section \<open>Adding codepoints one by one\<close>

lemma add_each_eq:
  assumes ok: "mask_bytes_ok mask_bytes"
  shows "\<exists>m'. add_each (Bits_pattern mask_bytes shift m) cs = Bits_pattern mask_bytes shift m'
           \<and> (\<forall>n. bit m' n \<longleftrightarrow> bit m n \<or> (\<exists>c \<in> set cs. bucket mask_bytes shift c = n))"
proof (induction cs arbitrary: m)
  case Nil
  then show ?case by (simp add: add_each_def)
next
  case (Cons c cs)
  obtain m' where m': "add_each (Bits_pattern mask_bytes shift (m OR 2 ^ bucket mask_bytes shift c)) cs
        = Bits_pattern mask_bytes shift m'"
      "\<And>n. bit m' n \<longleftrightarrow> bit (m OR 2 ^ bucket mask_bytes shift c) n
                 \<or> (\<exists>x \<in> set cs. bucket mask_bytes shift x = n)"
    using Cons.IH by blast
  have "add_each (Bits_pattern mask_bytes shift m) (c # cs) = Bits_pattern mask_bytes shift m'"
    using m'(1) by (simp add: add_each_def mask_for_eq [OF ok])
  moreover have "bit m' n \<longleftrightarrow> bit m n \<or> (\<exists>x \<in> set (c # cs). bucket mask_bytes shift x = n)" for n
    unfolding m'(2) by (auto simp: bit_or_iff bit_exp_iff)
  ultimately show ?case by blast
qed

lemma in_codepoints: "c \<in> set (codepoints a b) \<longleftrightarrow> a \<le> c \<and> c \<le> b"
proof
  assume "c \<in> set (codepoints a b)"
  then obtain x where x: "c = word_of_nat x" "unat a \<le> x" "x \<le> unat b"
    by (auto simp: codepoints_def)
  then have "unat c = x"
    by (simp add: le_unat_uoi [of x b])
  then show "a \<le> c \<and> c \<le> b"
    using x by (simp add: word_le_nat_alt)
next
  assume "a \<le> c \<and> c \<le> b"
  then have "unat c \<in> set [unat a ..< Suc (unat b)]"
    by (auto simp: word_le_nat_alt)
  then have "word_of_nat (unat c) \<in> set (codepoints a b)"
    unfolding codepoints_def by (simp only: set_map image_eqI)
  then show "c \<in> set (codepoints a b)" by simp
qed

lemma bits_pattern_add_range_shape:
  "fst (bits_pattern_add_range (Bits_pattern mask_bytes shift m) a b)
     = Bits_pattern mask_bytes shift
         (mask_of (fst (bits_pattern_add_range (Bits_pattern mask_bytes shift m) a b)))"
  by (simp add: Let_def)

text \<open>
  C2. For a bits-pattern filter and codepoints \<open>a \<le> b\<close>, \<open>add_range (a, b)\<close> leaves
  the filter in the state that calling \<open>add (c)\<close> for every \<open>c\<close> of \<open>[a, b]\<close> leaves
  it in, from the same mask; and a codepoint whose bucket is the bucket of no codepoint
  of \<open>[a, b]\<close> gets the same answer from \<open>may_have\<close> after the range call as before.
\<close>

theorem range_elementwise_equivalence:
  assumes valid: "bits_pattern_valid (Bits_pattern mask_bytes shift m)" and ab: "a \<le> b"
  shows "fst (bits_pattern_add_range (Bits_pattern mask_bytes shift m) a b)
           = add_each (Bits_pattern mask_bytes shift m) (codepoints a b)
         \<and> (\<forall>c. (\<forall>x. a \<le> x \<and> x \<le> b \<longrightarrow> bucket mask_bytes shift x \<noteq> bucket mask_bytes shift c)
               \<longrightarrow> bits_pattern_may_have
                     (fst (bits_pattern_add_range (Bits_pattern mask_bytes shift m) a b)) c
                   = bits_pattern_may_have (Bits_pattern mask_bytes shift m) c)"
proof -
  let ?p = "Bits_pattern mask_bytes shift m"
  let ?r = "mask_of (fst (bits_pattern_add_range ?p a b))"
  have ok: "mask_bytes_ok mask_bytes" and m: "0 \<le> m" "m < 2 ^ mask_bits mask_bytes"
    using valid by simp_all
  have r: "bit ?r n \<longleftrightarrow> bit m n \<or> (\<exists>c. a \<le> c \<and> c \<le> b \<and> bucket mask_bytes shift c = n)" for n
    by (rule bit_bits_pattern_add_range [OF ok m ab])
  obtain m' where m': "add_each ?p (codepoints a b) = Bits_pattern mask_bytes shift m'"
      "\<And>n. bit m' n \<longleftrightarrow> bit m n \<or> (\<exists>c \<in> set (codepoints a b). bucket mask_bytes shift c = n)"
    using add_each_eq [OF ok, of shift m "codepoints a b"] by blast
  have "bit ?r n \<longleftrightarrow> bit m' n" for n
    unfolding r m'(2) using in_codepoints [of _ a b] by blast
  then have "?r = m'"
    by (rule bit_eqI)
  then have "fst (bits_pattern_add_range ?p a b) = add_each ?p (codepoints a b)"
    using bits_pattern_add_range_shape [of mask_bytes shift m a b] by (simp only: m'(1))
  moreover have "bits_pattern_may_have (fst (bits_pattern_add_range ?p a b)) c
                   = bits_pattern_may_have ?p c"
    if "\<forall>x. a \<le> x \<and> x \<le> b \<longrightarrow> bucket mask_bytes shift x \<noteq> bucket mask_bytes shift c" for c
  proof -
    have "bits_pattern_may_have (fst (bits_pattern_add_range ?p a b)) c
            \<longleftrightarrow> bit ?r (bucket mask_bytes shift c)"
      using bits_pattern_may_have_bit [OF ok, of shift ?r c]
      by (simp only: bits_pattern_add_range_shape [symmetric])
    also have "\<dots> \<longleftrightarrow> bit m (bucket mask_bytes shift c)"
      unfolding r using that by blast
    finally show ?thesis
      by (simp only: bits_pattern_may_have_bit [OF ok])
  qed
  ultimately show ?thesis by blast
qed

theorem range_elementwise_equivalence_witness:
  "bits_pattern_valid (Bits_pattern 4 0 0) \<and> (10 :: hb_codepoint_t) \<le> 14
   \<and> fst (bits_pattern_add_range (Bits_pattern 4 0 0) 10 14)
        = add_each (Bits_pattern 4 0 0) (codepoints 10 14)
   \<and> bits_pattern_may_have (fst (bits_pattern_add_range (Bits_pattern 4 0 0) 10 14)) 9
        = bits_pattern_may_have (Bits_pattern 4 0 0) 9"
proof -
  have v: "bits_pattern_valid (Bits_pattern 4 0 0)"
    by (simp add: mask_bytes_ok_def num_bits_def)
  have le: "(10 :: hb_codepoint_t) \<le> 14"
    by simp
  have "bucket 4 0 x \<noteq> bucket 4 0 9" if "10 \<le> x \<and> x \<le> 14" for x :: hb_codepoint_t
  proof -
    have "10 \<le> unat x" "unat x \<le> 14"
      using that by (simp_all add: word_le_nat_alt)
    then show ?thesis
      by (simp add: bucket_eq mask_bytes_ok_def mask_bits_def)
  qed
  with range_elementwise_equivalence [OF v le] v le show ?thesis
    by blast
qed

section \<open>Masks only grow\<close>

lemma keeps_bits_iff: "keeps_bits m m' \<longleftrightarrow> (\<forall>n. bit m n \<longrightarrow> bit m' n)"
  unfolding keeps_bits_def by (auto simp: bit_eq_iff bit_and_iff)

lemma keeps_bits_refl: "keeps_bits m m"
  by (simp add: keeps_bits_iff)

lemma keeps_bits_trans: "keeps_bits m m' \<Longrightarrow> keeps_bits m' m'' \<Longrightarrow> keeps_bits m m''"
  by (simp add: keeps_bits_iff)

lemma keeps_bits_or: "keeps_bits m (m OR x)"
  by (simp add: keeps_bits_iff bit_or_iff)

lemma keeps_bits_all_ones:
  assumes "0 \<le> m" "m < 2 ^ W"
  shows "keeps_bits m (mask W)"
  using bit_mask_value_less [OF assms] by (simp add: keeps_bits_iff bit_simps)

lemma mask_int_less: "(mask W :: int) < 2 ^ W"
  by (simp add: mask_eq_exp_minus_1)

lemma or_in_range:
  fixes m x :: int
  assumes "0 \<le> m" "m < 2 ^ W" "0 \<le> x" "x < 2 ^ W"
  shows "0 \<le> m OR x \<and> m OR x < 2 ^ W"
  using assms by (simp add: OR_upper)

lemma take_bit_in_range: "0 \<le> take_bit W (x :: int) \<and> take_bit W x < 2 ^ W"
  by simp

lemma mask_for_in_range:
  "mask_bytes_ok mask_bytes \<Longrightarrow>
     0 \<le> mask_for mask_bytes shift g \<and> mask_for mask_bytes shift g < 2 ^ mask_bits mask_bytes"
  by (simp only: mask_for_def to_mask_t_def take_bit_nonnegative take_bit_int_less_exp simp_thms)

lemma bits_pattern_add_grows:
  assumes "bits_pattern_valid p"
  shows "bits_pattern_valid (bits_pattern_add p g) \<and> grows (Leaf p) (Leaf (bits_pattern_add p g))"
proof (cases p)
  case (Bits_pattern mask_bytes shift m)
  then show ?thesis
    using assms mask_for_in_range [of mask_bytes shift g]
    by (simp add: keeps_bits_or or_in_range)
qed

lemma bits_pattern_add_range_grows:
  assumes "bits_pattern_valid p"
  shows "bits_pattern_valid (fst (bits_pattern_add_range p a b))
         \<and> grows (Leaf p) (Leaf (fst (bits_pattern_add_range p a b)))"
proof (cases p)
  case (Bits_pattern mask_bytes shift m)
  then show ?thesis
    using assms take_bit_in_range [of "mask_bits mask_bytes"]
    by (simp add: Let_def keeps_bits_or keeps_bits_all_ones mask_int_less or_in_range
          to_mask_t_def)
qed

lemma grows_refl: "grows d d"
proof (induction d)
  case (Leaf p)
  then show ?case by (cases p) (simp add: keeps_bits_refl)
qed simp

lemma grows_trans: "grows d d' \<Longrightarrow> grows d' d'' \<Longrightarrow> grows d d''"
proof (induction d d' arbitrary: d'' rule: grows.induct)
  case (1 mask_bytes shift m mask_bytes' shift' m')
  then show ?case
    by (cases d''; cases "case d'' of Leaf p \<Rightarrow> p")
       (auto intro: keeps_bits_trans)
next
  case (2 head tail head' tail')
  then show ?case by (cases d'') auto
qed simp_all

lemma bits_pattern_add_array_grows:
  assumes "bits_pattern_valid p"
  shows "bits_pattern_valid (bits_pattern_add_array p deref array count stride)
         \<and> grows (Leaf p) (Leaf (bits_pattern_add_array p deref array count stride))"
  using assms
proof (induction count arbitrary: p array)
  case 0
  then show ?case by (simp add: grows_refl)
next
  case (Suc count)
  from bits_pattern_add_grows [OF Suc.prems, of "deref array"]
  have v: "bits_pattern_valid (bits_pattern_add p (deref array))"
    and g: "grows (Leaf p) (Leaf (bits_pattern_add p (deref array)))" by simp_all
  from Suc.IH [OF v, of "array + stride"] g show ?case
    by (auto intro: grows_trans)
qed

lemma bits_pattern_add_sorted_array_eq:
  "bits_pattern_add_sorted_array p deref array count stride
     = (bits_pattern_add_array p deref array count stride, True)"
  by (induction count arbitrary: p array) simp_all

lemma add_sorted_array_eq:
  "add_sorted_array d deref array count stride = (add_array d deref array count stride, True)"
  by (induction d) (simp_all add: bits_pattern_add_sorted_array_eq)

lemma exec_grows:
  assumes "valid d" "is_add_call call"
  shows "valid (fst (exec d call)) \<and> grows d (fst (exec d call))"
  using assms
proof (induction d)
  case (Leaf p)
  then show ?case
    using bits_pattern_add_grows [of p] bits_pattern_add_range_grows [of p]
      bits_pattern_add_array_grows [of p]
    by (cases call) (simp_all add: add_sorted_array_eq)
next
  case (Combiner head tail)
  then show ?case
    by (cases call) (simp_all add: add_sorted_array_eq)
qed

lemma run_grows:
  assumes "valid d" "list_all is_add_call calls"
  shows "valid (run d calls) \<and> grows d (run d calls)"
  using assms
proof (induction calls arbitrary: d)
  case Nil
  then show ?case by (simp add: grows_refl)
next
  case (Cons call calls)
  from Cons.prems exec_grows [of d call]
  have v: "valid (fst (exec d call))" and g: "grows d (fst (exec d call))" by simp_all
  from Cons.IH [OF v] Cons.prems g show ?case
    by (auto intro: grows_trans)
qed

lemma grows_may_have:
  assumes "grows d d'" "valid d" "may_have d c"
  shows "may_have d' c"
  using assms
proof (induction d d' rule: grows.induct)
  case (1 mask_bytes shift m mask_bytes' shift' m')
  then show ?case
    by (simp only: grows.simps valid.simps bits_pattern_valid.simps may_have.simps
          bits_pattern_may_have_bit keeps_bits_iff)
qed simp_all

lemma grows_masks: "grows d d' \<Longrightarrow> list_all2 keeps_bits (masks d) (masks d')"
  by (induction d d' rule: grows.induct) (simp_all add: list_all2_appendI)

section \<open>What a populating call adds\<close>

lemma array_elements_Suc:
  "array_elements deref array (Suc count) stride
     = deref array # array_elements deref (array + stride) count stride"
proof -
  have "[0 ..< Suc count] = 0 # map Suc [0 ..< count]"
    by (simp add: upt_conv_Cons map_Suc_upt del: upt_Suc)
  then show ?thesis
    by (simp add: array_elements_def comp_def add.assoc del: upt_Suc)
qed

lemma bits_pattern_add_array_eq:
  "bits_pattern_add_array p deref array count stride
     = add_each p (array_elements deref array count stride)"
proof (induction count arbitrary: p array)
  case 0
  then show ?case by (simp add: add_each_def array_elements_def)
next
  case (Suc count)
  then show ?case by (simp add: array_elements_Suc add_each_def)
qed

lemma add_each_may_have:
  assumes "bits_pattern_valid p" "c \<in> set cs"
  shows "bits_pattern_may_have (add_each p cs) c"
proof (cases p)
  case (Bits_pattern mask_bytes shift m)
  then have ok: "mask_bytes_ok mask_bytes" using assms by simp
  obtain m' where m': "add_each (Bits_pattern mask_bytes shift m) cs = Bits_pattern mask_bytes shift m'"
      "\<And>n. bit m' n \<longleftrightarrow> bit m n \<or> (\<exists>c \<in> set cs. bucket mask_bytes shift c = n)"
    using add_each_eq [OF ok, of shift m cs] by blast
  have "bit m' (bucket mask_bytes shift c)"
    unfolding m'(2) using assms(2) by blast
  then show ?thesis
    by (simp only: Bits_pattern m'(1) bits_pattern_may_have_bit [OF ok])
qed

lemma bits_pattern_add_range_may_have:
  assumes "bits_pattern_valid p" "a \<le> c" "c \<le> b"
  shows "bits_pattern_may_have (fst (bits_pattern_add_range p a b)) c"
proof (cases p)
  case (Bits_pattern mask_bytes shift m)
  let ?r = "mask_of (fst (bits_pattern_add_range (Bits_pattern mask_bytes shift m) a b))"
  have ok: "mask_bytes_ok mask_bytes" and m: "0 \<le> m" "m < 2 ^ mask_bits mask_bytes"
    using assms(1) Bits_pattern by simp_all
  have ab: "a \<le> b" using assms by simp
  have "bit ?r (bucket mask_bytes shift c)"
    unfolding bit_bits_pattern_add_range [OF ok m ab] using assms by blast
  then have "bits_pattern_may_have (Bits_pattern mask_bytes shift ?r) c"
    by (simp only: bits_pattern_may_have_bit [OF ok])
  then show ?thesis
    by (simp only: Bits_pattern bits_pattern_add_range_shape [symmetric])
qed

lemma bits_pattern_add_may_have:
  assumes "bits_pattern_valid p"
  shows "bits_pattern_may_have (bits_pattern_add p c) c"
  using add_each_may_have [OF assms, of c "[c]"] by (simp add: add_each_def)

lemma exec_may_have:
  assumes "valid d" "populates call" "in_call call c"
  shows "may_have (fst (exec d call)) c"
  using assms
proof (induction d)
  case (Leaf p)
  then show ?case
    by (cases call)
      (simp_all add: add_sorted_array_eq bits_pattern_add_array_eq add_each_may_have
         bits_pattern_add_range_may_have bits_pattern_add_may_have)
next
  case (Combiner head tail)
  then show ?case
    by (cases call) (simp_all add: add_sorted_array_eq)
qed

lemma populates_is_add_call: "populates call \<Longrightarrow> is_add_call call"
  by (cases call) simp_all

lemma run_may_have:
  assumes "valid d" "list_all populates calls" "in_logical_set calls c"
  shows "may_have (run d calls) c"
  using assms
proof (induction calls arbitrary: d)
  case Nil
  then show ?case by (simp add: in_logical_set_def)
next
  case (Cons call calls)
  have adds: "is_add_call call" "list_all is_add_call calls"
    using Cons.prems(2) by (auto simp: list_all_iff populates_is_add_call)
  have v: "valid (fst (exec d call))"
    using exec_grows [OF Cons.prems(1) adds(1)] by simp
  show ?case
  proof (cases "in_call call c")
    case True
    then have "may_have (fst (exec d call)) c"
      using exec_may_have Cons.prems by simp
    then show ?thesis
      using run_grows [OF v adds(2)] grows_may_have v by auto
  next
    case False
    then have "in_logical_set calls c"
      using Cons.prems(3) by (simp add: in_logical_set_def)
    then show ?thesis
      using Cons.IH [OF v] Cons.prems(2) by simp
  qed
qed

lemma valid_init: "valid d \<Longrightarrow> valid (init d)"
proof (induction d)
  case (Leaf p)
  then show ?case by (cases p) simp
qed simp

text \<open>
  C1. Soundness. For a valid digest (a bits-pattern filter of any width and shift, or a
  combiner of such), after \<open>init\<close> and any sequence of \<open>add\<close>, \<open>add_range\<close> with
  \<open>a \<le> b\<close>, \<open>add_array\<close> and \<open>add_sorted_array\<close> calls, \<open>may_have (c)\<close> is true for
  every codepoint \<open>c\<close> that one of the calls added.
\<close>

theorem soundness:
  assumes "valid d" and "list_all populates calls" and "in_logical_set calls c"
  shows "may_have (run (init d) calls) c"
  using run_may_have [OF valid_init [OF assms(1)] assms(2) assms(3)] .

theorem soundness_witness:
  "valid (Leaf (Bits_pattern 4 0 77))
   \<and> list_all populates [Add 5, Add_range 10 14, Add_array (\<lambda>i. word_of_nat i) 100 3 2]
   \<and> in_logical_set [Add 5, Add_range 10 14, Add_array (\<lambda>i. word_of_nat i) 100 3 2] 12
   \<and> may_have (run (init (Leaf (Bits_pattern 4 0 77)))
        [Add 5, Add_range 10 14, Add_array (\<lambda>i. word_of_nat i) 100 3 2]) 12"
proof -
  have v: "valid (Leaf (Bits_pattern 4 0 77))"
    by (simp add: mask_bytes_ok_def num_bits_def mask_bits_def)
  have p: "list_all populates [Add 5, Add_range 10 14, Add_array (\<lambda>i. word_of_nat i) 100 3 2]"
    by simp
  have i: "in_logical_set [Add 5, Add_range 10 14, Add_array (\<lambda>i. word_of_nat i) 100 3 2] 12"
    by (simp add: in_logical_set_def)
  from soundness [OF v p i] v p i show ?thesis
    by blast
qed

text \<open>
  C6. Monotonicity. For a valid digest, leaf or combiner, a codepoint for which
  \<open>may_have\<close> is true keeps that answer after any further \<open>add\<close>, \<open>add_range\<close>,
  \<open>add_array\<close> and \<open>add_sorted_array\<close> calls, and every mask of the digest keeps each
  of its set bits.
\<close>

theorem monotonicity:
  assumes "valid d" and "list_all is_add_call calls"
  shows "(may_have d c \<longrightarrow> may_have (run d calls) c)
         \<and> list_all2 keeps_bits (masks d) (masks (run d calls))"
  using run_grows [OF assms] grows_may_have [of d "run d calls" c] assms(1)
    grows_masks [of d "run d calls"] by blast

theorem monotonicity_witness:
  "valid (hb_set_digest_t 1 2 3) \<and> list_all is_add_call [Add_range 7 3, Add 9]
   \<and> may_have (hb_set_digest_t 1 2 3) 1
   \<and> may_have (run (hb_set_digest_t 1 2 3) [Add_range 7 3, Add 9]) 1
   \<and> list_all2 keeps_bits (masks (hb_set_digest_t 1 2 3))
        (masks (run (hb_set_digest_t 1 2 3) [Add_range 7 3, Add 9]))"
proof -
  have v: "valid (hb_set_digest_t 1 2 3)"
    by (simp add: hb_set_digest_t_def mask_bytes_ok_def num_bits_def mask_bits_def)
  have a: "list_all is_add_call [Add_range 7 3, Add 9]"
    by simp
  have ok: "mask_bytes_ok 4"
    by (simp add: mask_bytes_ok_def)
  have b: "bucket 4 4 1 = 0" "bucket 4 0 1 = 1" "bucket 4 9 1 = 0"
    by (simp_all add: bucket_eq [OF ok] mask_bits_def)
  have h: "may_have (hb_set_digest_t 1 2 3) 1"
    by (simp add: hb_set_digest_t_def mask_for_eq [OF ok] b)
  from monotonicity [OF v a, of 1] v a h show ?thesis
    by blast
qed

section \<open>Combiners\<close>

lemma exec_Combiner:
  "fst (exec (Combiner head tail) call) = Combiner (fst (exec head call)) (fst (exec tail call))"
  by (cases call) simp_all

lemma run_Combiner:
  "run (Combiner head tail) calls = Combiner (run head calls) (run tail calls)"
  by (induction calls arbitrary: head tail) (simp_all only: run.simps exec_Combiner)

text \<open>
  C4. Conjunction law. After any sequence of calls (\<open>init\<close>, the four \<open>add\<close> calls,
  queries) applied to a combiner, its head and its tail are what the same calls make of
  the head and of the tail alone, and \<open>may_have (c)\<close> of the combiner is the conjunction
  of \<open>may_have (c)\<close> of the two; the same holds for the batch query.
\<close>

theorem conjunction_law:
  "run (Combiner head tail) calls = Combiner (run head calls) (run tail calls)
   \<and> may_have (run (Combiner head tail) calls) c
       = (may_have (run head calls) c \<and> may_have (run tail calls) c)
   \<and> may_have_m256i (run (Combiner head tail) calls) g
       = (may_have_m256i (run head calls) g \<and> may_have_m256i (run tail calls) g)"
  by (simp add: run_Combiner)

text \<open>
  C7. \<open>add_sorted_array\<close> leaves a digest, leaf or combiner, in the state in which
  \<open>add_array\<close> with the same buffer, count and stride leaves it, returns true, and all
  later calls go the same way after either.
\<close>

theorem sorted_array_equivalence:
  "bits_pattern_add_sorted_array p deref array count stride
     = (bits_pattern_add_array p deref array count stride, True)
   \<and> add_sorted_array d deref array count stride = (add_array d deref array count stride, True)
   \<and> run d (Add_sorted_array deref array count stride # calls)
       = run d (Add_array deref array count stride # calls)"
  by (simp add: bits_pattern_add_sorted_array_eq add_sorted_array_eq)

section \<open>Queries\<close>

lemma exec_query: "is_query call \<Longrightarrow> fst (exec d call) = d"
  by (cases call) simp_all

lemma run_without_queries: "run d (filter (\<lambda>call. \<not> is_query call) calls) = run d calls"
  by (induction calls arbitrary: d) (simp_all add: exec_query)

text \<open>
  C10. Purity of queries. The scalar and the batch \<open>may_have\<close> leave a digest, leaf or
  combiner, as it is; asked again they answer the same; and a trace leads to the same
  state with its queries as without them.
\<close>

theorem query_purity:
  "fst (exec d (May_have c)) = d
   \<and> fst (exec d (May_have_m256i g)) = d
   \<and> snd (exec (fst (exec d (May_have c))) (May_have c)) = snd (exec d (May_have c))
   \<and> snd (exec (fst (exec d (May_have_m256i g))) (May_have_m256i g))
       = snd (exec d (May_have_m256i g))
   \<and> run d (filter (\<lambda>call. \<not> is_query call) calls) = run d calls"
  by (simp add: run_without_queries)

section \<open>The production digest\<close>

lemma bucket_1000: "bucket 4 4 1000 = 30" "bucket 4 0 1000 = 8" "bucket 4 9 1000 = 1"
  by (simp_all add: bucket_eq mask_bytes_ok_def mask_bits_def)

lemma bucket_0: "bucket 4 shift 0 = 0"
  by (simp add: bucket_eq mask_bytes_ok_def mask_bits_def)

text \<open>
  C8. The production digest (32-bit masks at shifts 4, 0 and 9), whatever its masks held
  before, after \<open>init\<close> and \<open>add (1000)\<close> answers true for 1000, and there is a glyph,
  glyph 0, whose three buckets all differ from the three of 1000 and for which it
  answers false.
\<close>

theorem three_way_composite:
  "may_have (add (init (hb_set_digest_t m4 m0 m9)) 1000) 1000
   \<and> (\<exists>g. bucket 4 4 g \<noteq> bucket 4 4 1000 \<and> bucket 4 0 g \<noteq> bucket 4 0 1000
          \<and> bucket 4 9 g \<noteq> bucket 4 9 1000
          \<and> \<not> may_have (add (init (hb_set_digest_t m4 m0 m9)) 1000) g)"
proof -
  have ok: "mask_bytes_ok 4" by (simp add: mask_bytes_ok_def)
  have "may_have (add (init (hb_set_digest_t m4 m0 m9)) 1000) 1000"
    by (simp add: hb_set_digest_t_def mask_for_eq [OF ok] bucket_1000)
  moreover have "\<not> may_have (add (init (hb_set_digest_t m4 m0 m9)) 1000) 0"
    by (simp add: hb_set_digest_t_def mask_for_eq [OF ok] bucket_1000 bucket_0)
  moreover have "bucket 4 4 0 \<noteq> bucket 4 4 1000 \<and> bucket 4 0 0 \<noteq> bucket 4 0 1000
          \<and> bucket 4 9 0 \<noteq> bucket 4 9 1000"
    by (simp add: bucket_1000 bucket_0)
  ultimately show ?thesis by blast
qed

section \<open>When add_range saturates\<close>

lemma all_ones_eq: "to_mask_t mask_bytes (- 1) = all_ones mask_bytes"
  by (simp add: to_mask_t_def all_ones_def mask_eq_exp_minus_1)

lemma bit_all_ones: "bit (all_ones mask_bytes) n \<longleftrightarrow> n < mask_bits mask_bytes"
  by (simp add: all_ones_def bit_simps flip: mask_eq_exp_minus_1)

lemma bits_pattern_add_range_saturated:
  assumes "word_of_nat (mask_bits mask_bytes - 1) \<le> drop_bit shift b - drop_bit shift a"
  shows "mask_of (fst (bits_pattern_add_range (Bits_pattern mask_bytes shift m) a b))
           = all_ones mask_bytes"
  using assms
  by (simp only: bits_pattern_add_range.simps if_True fst_conv mask_of.simps all_ones_eq)

lemma bits_pattern_add_range_same_bucket:
  assumes ok: "mask_bytes_ok mask_bytes" and same: "drop_bit shift a = drop_bit shift b"
  shows "mask_of (fst (bits_pattern_add_range (Bits_pattern mask_bytes shift m) a b))
           = m OR 2 ^ bucket mask_bytes shift a"
proof -
  have "unat (word_of_nat (mask_bits mask_bytes - 1) :: hb_codepoint_t) \<noteq> 0"
    using ok by (auto simp: mask_bytes_ok_def mask_bits_def)
  then have "\<not> word_of_nat (mask_bits mask_bytes - 1) \<le> drop_bit shift b - drop_bit shift a"
    by (simp add: same word_le_nat_alt)
  moreover have "mask_for mask_bytes shift a = mask_for mask_bytes shift b"
    by (simp add: mask_for_def same)
  moreover have "take_bit (mask_bits mask_bytes) ((2::int) ^ bucket mask_bytes shift b)
          = 2 ^ bucket mask_bytes shift b"
    using bucket_less [OF ok, of shift b] by (simp add: take_bit_int_eq_self)
  ultimately show ?thesis
    by (simp add: to_mask_t_def mask_for_eq [OF ok])
qed

lemma residue_missed:
  fixes A B W :: nat
  assumes AB: "A \<le> B" and narrow: "B - A < W - 1"
  shows "\<not> (\<exists>v. A \<le> v \<and> v \<le> B \<and> v mod W = (B + 1) mod W)"
proof
  assume "\<exists>v. A \<le> v \<and> v \<le> B \<and> v mod W = (B + 1) mod W"
  then obtain v where v: "A \<le> v" "v \<le> B" "(B + 1) mod W = v mod W" by auto
  then have "W dvd B + 1 - v"
    by (simp add: mod_eq_dvd_iff_nat)
  moreover have "0 < B + 1 - v" "B + 1 - v < W"
    using v narrow by arith+
  ultimately show False
    using dvd_imp_le [of W "B + 1 - v"] by simp
qed

lemma fresh_range_not_saturated:
  assumes ok: "mask_bytes_ok mask_bytes" and ab: "a \<le> b"
    and test: "\<not> word_of_nat (mask_bits mask_bytes - 1) \<le> drop_bit shift b - drop_bit shift a"
  shows "mask_of (fst (bits_pattern_add_range (Bits_pattern mask_bytes shift 0) a b))
           \<noteq> all_ones mask_bytes"
proof
  let ?W = "mask_bits mask_bytes"
  let ?A = "unat a div 2 ^ shift" and ?B = "unat b div 2 ^ shift"
  let ?n = "(?B + 1) mod ?W"
  assume eq: "mask_of (fst (bits_pattern_add_range (Bits_pattern mask_bytes shift 0) a b))
           = all_ones mask_bytes"
  have W: "0 < ?W" using mask_bits_pos [OF ok] by simp
  have AB: "?A \<le> ?B" using ab by (simp add: word_le_nat_alt div_le_mono)
  have narrow: "?B - ?A < ?W - 1"
    using test by (simp only: saturation_test [OF ok ab] not_le)
  have "?n < ?W" using W by simp
  then have "bit (mask_of (fst (bits_pattern_add_range (Bits_pattern mask_bytes shift 0) a b))) ?n"
    by (simp only: eq bit_all_ones)
  then have "\<exists>c. a \<le> c \<and> c \<le> b \<and> bucket mask_bytes shift c = ?n"
    using bit_bits_pattern_add_range [OF ok _ _ ab, of 0 shift ?n] by simp
  then show False
    using residue_missed [OF AB narrow]
    by (simp only: buckets_of_interval [OF ok ab])
qed

lemma all_ones_may_have:
  assumes "mask_bytes_ok mask_bytes"
  shows "bits_pattern_may_have (Bits_pattern mask_bytes shift (all_ones mask_bytes)) x"
  by (simp only: bits_pattern_may_have_bit [OF assms] bit_all_ones bucket_less [OF assms])

text \<open>
  C3, as the specification defines its terms: \<open>bucket (c)\<close> is the shifted value masked
  to a bucket index. With a 32-bit mask and shift 0, \<open>add_range (0, 40)\<close> on a mask of 0
  gives the all-ones mask, while \<open>bucket (40) - bucket (0)\<close> is 8, below
  \<open>num_buckets - 1 = 31\<close>, in the integers and in 32-bit unsigned arithmetic alike.
  And a mask that is all-ones already stays all-ones after \<open>add_range (0, 0)\<close>, whose
  range spans a single bucket.
\<close>

theorem saturation_by_buckets_counterexample:
  "(0 :: hb_codepoint_t) \<le> 40
   \<and> mask_of (fst (bits_pattern_add_range (Bits_pattern 4 0 0) 0 40)) = all_ones 4
   \<and> \<not> (int (num_buckets 4) - 1 \<le> int (bucket 4 0 40) - int (bucket 4 0 0))
   \<and> \<not> ((word_of_nat (num_buckets 4 - 1) :: 32 word)
          \<le> word_of_nat (bucket 4 0 40) - word_of_nat (bucket 4 0 0))
   \<and> (0 :: hb_codepoint_t) \<le> 0
   \<and> mask_of (fst (bits_pattern_add_range (Bits_pattern 4 0 (all_ones 4)) 0 0)) = all_ones 4
   \<and> \<not> ((word_of_nat (num_buckets 4 - 1) :: 32 word)
          \<le> drop_bit 0 (0 :: hb_codepoint_t) - drop_bit 0 (0 :: hb_codepoint_t))"
proof -
  have ok: "mask_bytes_ok 4" by (simp add: mask_bytes_ok_def)
  have b: "bucket 4 0 40 = 8" "bucket 4 0 0 = 0" "num_buckets 4 = 32"
    by (simp_all add: bucket_eq [OF ok] mask_bits_def num_buckets_def num_bits_def)
  have "(word_of_nat (mask_bits 4 - 1) :: 32 word) \<le> drop_bit 0 40 - drop_bit 0 0"
    by (simp add: mask_bits_def word_le_nat_alt)
  then have "mask_of (fst (bits_pattern_add_range (Bits_pattern 4 0 0) 0 40)) = all_ones 4"
    by (rule bits_pattern_add_range_saturated)
  moreover have "mask_of (fst (bits_pattern_add_range (Bits_pattern 4 0 (all_ones 4)) 0 0))
                   = all_ones 4"
    using bits_pattern_add_range_same_bucket [OF ok, of 0 0 0 "all_ones 4"]
    by (simp add: b all_ones_def mask_bits_def)
  ultimately show ?thesis
    by (simp add: b word_le_nat_alt)
qed

text \<open>
  C3, amended. For a valid bits-pattern filter and \<open>a \<le> b\<close>: when
  \<open>(b >> shift) - (a >> shift) \<ge> num_buckets - 1\<close>, the shifted values taken before
  they are masked to a bucket index, \<open>add_range (a, b)\<close> makes the mask all-ones
  whatever it was; on a mask of 0 it makes the mask all-ones exactly then. With a 32-bit
  mask and shift 0, \<open>add_range (0, 40)\<close> makes the mask all-ones and \<open>may_have\<close> is
  true of every codepoint afterwards.
\<close>

theorem saturation_condition:
  assumes valid: "bits_pattern_valid (Bits_pattern mask_bytes shift m)" and ab: "a \<le> b"
  shows "(word_of_nat (num_buckets mask_bytes - 1) \<le> drop_bit shift b - drop_bit shift a
            \<longrightarrow> mask_of (fst (bits_pattern_add_range (Bits_pattern mask_bytes shift m) a b))
                  = all_ones mask_bytes)
         \<and> (mask_of (fst (bits_pattern_add_range
                (bits_pattern_init (Bits_pattern mask_bytes shift m)) a b)) = all_ones mask_bytes
              \<longleftrightarrow> word_of_nat (num_buckets mask_bytes - 1) \<le> drop_bit shift b - drop_bit shift a)
         \<and> mask_of (fst (bits_pattern_add_range (Bits_pattern 4 0 m') 0 40)) = all_ones 4
         \<and> (\<forall>x. bits_pattern_may_have (fst (bits_pattern_add_range (Bits_pattern 4 0 m') 0 40)) x)"
proof -
  have ok: "mask_bytes_ok mask_bytes" using valid by simp
  note nb = mask_bits_eq_num_buckets [OF ok, symmetric]
  have ok4: "mask_bytes_ok 4" by (simp add: mask_bytes_ok_def)
  have "(word_of_nat (mask_bits 4 - 1) :: 32 word) \<le> drop_bit 0 40 - drop_bit 0 0"
    by (simp add: mask_bits_def word_le_nat_alt)
  then have s: "mask_of (fst (bits_pattern_add_range (Bits_pattern 4 0 m') 0 40)) = all_ones 4"
    by (rule bits_pattern_add_range_saturated)
  have "bits_pattern_may_have (fst (bits_pattern_add_range (Bits_pattern 4 0 m') 0 40)) x" for x
    using all_ones_may_have [OF ok4, of 0 x] bits_pattern_add_range_shape [of 4 0 m' 0 40]
    by (simp only: s)
  then show ?thesis
    using s bits_pattern_add_range_saturated [of mask_bytes shift b a]
      fresh_range_not_saturated [OF ok ab, of shift]
    unfolding nb bits_pattern_init.simps by blast
qed

theorem saturation_condition_witness:
  "bits_pattern_valid (Bits_pattern 4 0 5) \<and> (0 :: hb_codepoint_t) \<le> 40
   \<and> (word_of_nat (num_buckets 4 - 1) :: 32 word) \<le> drop_bit 0 40 - drop_bit 0 0
   \<and> mask_of (fst (bits_pattern_add_range (Bits_pattern 4 0 5) 0 40)) = all_ones 4
   \<and> mask_of (fst (bits_pattern_add_range (bits_pattern_init (Bits_pattern 4 0 5)) 0 40))
       = all_ones 4"
proof -
  have v: "bits_pattern_valid (Bits_pattern 4 0 5)"
    by (simp add: mask_bytes_ok_def num_bits_def mask_bits_def)
  have le: "(0 :: hb_codepoint_t) \<le> 40"
    by simp
  have c: "(word_of_nat (num_buckets 4 - 1) :: 32 word) \<le> drop_bit 0 40 - drop_bit 0 0"
    by (simp add: num_buckets_def num_bits_def word_le_nat_alt)
  from saturation_condition [OF v le] v le c show ?thesis
    by blast
qed

section \<open>Ranges given in the wrong order\<close>

lemma add_range_returns_true: "snd (add_range d a b) = True"
  by (cases d; cases "case d of Leaf p \<Rightarrow> p") (simp_all add: Let_def)

lemma unat_wrapped_difference:
  fixes A B :: hb_codepoint_t
  assumes "B < A"
  shows "unat (B - A) = 2 ^ 32 - (unat A - unat B)"
proof -
  have "unat B < unat A" using assms by (simp add: word_less_nat_alt)
  moreover have "unat A < 2 ^ 32" using unsigned_less [of A, where ?'a = nat] by simp
  ultimately show ?thesis
    by (simp add: unat_sub_if_size word_size)
qed

lemma inverted_test:
  fixes a b :: hb_codepoint_t
  assumes ok: "mask_bytes_ok mask_bytes" and inv: "drop_bit shift b < drop_bit shift a"
  shows "word_of_nat (mask_bits mask_bytes - 1) \<le> drop_bit shift b - drop_bit shift a
           \<longleftrightarrow> unat (drop_bit shift a) - unat (drop_bit shift b)
                 \<le> 2 ^ 32 - (mask_bits mask_bytes - 1)"
proof -
  have W: "unat (word_of_nat (mask_bits mask_bytes - 1) :: hb_codepoint_t)
             = mask_bits mask_bytes - 1" "mask_bits mask_bytes \<le> 128"
    using ok by (auto simp: mask_bytes_ok_def mask_bits_def)
  have "unat (drop_bit shift b) < unat (drop_bit shift a)"
    using inv by (simp add: word_less_nat_alt)
  moreover have "unat (drop_bit shift a) < 2 ^ 32"
    using unsigned_less [of "drop_bit shift a", where ?'a = nat] by simp
  ultimately show ?thesis
    unfolding word_le_nat_alt unat_wrapped_difference [OF inv] W(1) using W(2) by arith
qed

lemma shifted_small:
  fixes a :: hb_codepoint_t
  assumes "1 \<le> shift"
  shows "unat (drop_bit shift a) < 2 ^ 31"
proof -
  have "unat a < 2 * 2 ^ 31" using unsigned_less [of a, where ?'a = nat] by simp
  then have "unat a div 2 < 2 ^ 31" by simp
  moreover have "(2::nat) ^ 1 \<le> 2 ^ shift"
    using assms by (intro power_increasing) simp_all
  then have "unat a div 2 ^ shift \<le> unat a div 2 ^ 1"
    by (intro div_le_mono2) simp_all
  ultimately show ?thesis
    by (simp add: unat_shifted)
qed

text \<open>
  C9, as stated, fails for shift 0: with a 32-bit mask, \<open>add_range (0xFFFFFFFF, 0)\<close>
  has \<open>(b >> shift) < (a >> shift)\<close>, yet the subtraction wraps to 1, below
  \<open>mask_bits - 1 = 31\<close>, and a mask of 0 becomes \<open>0x80000001\<close>, not all-ones.
\<close>

theorem inverted_range_counterexample:
  "drop_bit 0 (0 :: hb_codepoint_t) < drop_bit 0 (0xFFFFFFFF :: hb_codepoint_t)
   \<and> drop_bit 0 (0 :: hb_codepoint_t) - drop_bit 0 (0xFFFFFFFF :: hb_codepoint_t) = 1
   \<and> \<not> (word_of_nat (mask_bits 4 - 1) :: 32 word)
          \<le> drop_bit 0 (0 :: hb_codepoint_t) - drop_bit 0 (0xFFFFFFFF :: hb_codepoint_t)
   \<and> mask_of (fst (bits_pattern_add_range (Bits_pattern 4 0 0) 0xFFFFFFFF 0)) = 0x80000001
   \<and> mask_of (fst (bits_pattern_add_range (Bits_pattern 4 0 0) 0xFFFFFFFF 0)) \<noteq> all_ones 4"
  by (simp add: mask_bits_def word_le_nat_alt word_less_nat_alt mask_for_def to_mask_t_def
        all_ones_def)

text \<open>
  C9, amended. \<open>add_range (a, b)\<close> returns true for every pair, on a leaf and on a
  combiner. On a leaf of a valid width with \<open>(b >> shift) < (a >> shift)\<close>, the test of
  the source holds exactly when \<open>(a >> shift) - (b >> shift) \<le> 2 ^ 32 - (mask_bits - 1)\<close>,
  which is so whenever \<open>shift \<ge> 1\<close>, and then the mask is all-ones. When
  \<open>(a >> shift) = (b >> shift)\<close>, the mask gains the bit of that one bucket and no other.
\<close>

theorem inverted_range:
  assumes ok: "mask_bytes_ok mask_bytes"
  shows "snd (add_range d a b) = True
         \<and> snd (bits_pattern_add_range (Bits_pattern mask_bytes shift m) a b) = True
         \<and> (drop_bit shift b < drop_bit shift a \<longrightarrow>
              (word_of_nat (mask_bits mask_bytes - 1) \<le> drop_bit shift b - drop_bit shift a
                 \<longleftrightarrow> unat (drop_bit shift a) - unat (drop_bit shift b)
                       \<le> 2 ^ 32 - (mask_bits mask_bytes - 1))
              \<and> (1 \<le> shift \<longrightarrow>
                   word_of_nat (mask_bits mask_bytes - 1) \<le> drop_bit shift b - drop_bit shift a)
              \<and> (word_of_nat (mask_bits mask_bytes - 1) \<le> drop_bit shift b - drop_bit shift a
                   \<longrightarrow> mask_of (fst (bits_pattern_add_range (Bits_pattern mask_bytes shift m) a b))
                         = all_ones mask_bytes))
         \<and> (drop_bit shift a = drop_bit shift b \<longrightarrow>
              mask_of (fst (bits_pattern_add_range (Bits_pattern mask_bytes shift m) a b))
                = m OR 2 ^ bucket mask_bytes shift a)"
proof -
  have "snd (bits_pattern_add_range (Bits_pattern mask_bytes shift m) a b) = True"
    by (simp add: Let_def)
  moreover have "word_of_nat (mask_bits mask_bytes - 1) \<le> drop_bit shift b - drop_bit shift a"
    if "drop_bit shift b < drop_bit shift a" "1 \<le> shift"
  proof -
    have "unat (drop_bit shift a) - unat (drop_bit shift b) \<le> 2 ^ 32 - (mask_bits mask_bytes - 1)"
      using shifted_small [OF that(2), of a] mask_bits_le [OF ok] by simp
    then show ?thesis
      by (simp only: inverted_test [OF ok that(1)])
  qed
  ultimately show ?thesis
    using add_range_returns_true [of d a b] inverted_test [OF ok, of shift b a]
      bits_pattern_add_range_saturated [of mask_bytes shift b a m]
      bits_pattern_add_range_same_bucket [OF ok, of shift a b m]
    by blast
qed

theorem inverted_range_witness:
  "mask_bytes_ok 4
   \<and> drop_bit 4 (0x10 :: hb_codepoint_t) < drop_bit 4 (0x100 :: hb_codepoint_t)
   \<and> (1 :: nat) \<le> 4
   \<and> (word_of_nat (mask_bits 4 - 1) :: 32 word)
        \<le> drop_bit 4 (0x10 :: hb_codepoint_t) - drop_bit 4 (0x100 :: hb_codepoint_t)
   \<and> mask_of (fst (bits_pattern_add_range (Bits_pattern 4 4 0) 0x100 0x10)) = all_ones 4
   \<and> drop_bit 4 (0x25 :: hb_codepoint_t) = drop_bit 4 (0x21 :: hb_codepoint_t)
   \<and> mask_of (fst (bits_pattern_add_range (Bits_pattern 4 4 0) 0x25 0x21))
        = 0 OR 2 ^ bucket 4 4 0x25"
proof -
  have ok: "mask_bytes_ok 4"
    by (simp add: mask_bytes_ok_def)
  have inv: "drop_bit 4 (0x10 :: hb_codepoint_t) < drop_bit 4 (0x100 :: hb_codepoint_t)"
    by (simp add: drop_bit_eq_div)
  have same: "drop_bit 4 (0x25 :: hb_codepoint_t) = drop_bit 4 (0x21 :: hb_codepoint_t)"
    by (simp add: drop_bit_eq_div)
  have sh: "(1 :: nat) \<le> 4"
    by simp
  from inverted_range [OF ok, of "Leaf (Bits_pattern 4 4 0)" "0x100" "0x10" 4 0]
    inverted_range [OF ok, of "Leaf (Bits_pattern 4 4 0)" "0x25" "0x21" 4 0]
    ok inv same sh
  show ?thesis
    by blast
qed

section \<open>The batch query\<close>

lemma m256_is_not_zero_iff: "m256_is_not_zero v \<longleftrightarrow> (\<exists>x \<in> set (epi32 v). x \<noteq> 0)"
  by (cases v) (auto simp: m256_is_not_zero_def mm256_testz_si256_def mm256_and_si256_def)

lemma epi32_query:
  "epi32 (mm256_and_si256 (mm256_set1_epi32 w) (mask_for_m256i mask_bytes shift g))
     = map (\<lambda>x. w AND lane_mask_for mask_bytes shift x) (epi32 g)"
  by (cases g)
    (simp add: mm256_and_si256_def mm256_set1_epi32_def mask_for_m256i_def shifted_def
       mm256_srli_epi32_def mm256_sllv_epi32_def lane_mask_for_def Let_def)

lemma lane_query:
  assumes valid: "bits_pattern_valid (Bits_pattern mask_bytes shift m)"
    and narrow: "mask_bytes \<le> 4"
  shows "(word_of_int m :: 32 word) AND lane_mask_for mask_bytes shift x \<noteq> 0
           \<longleftrightarrow> bits_pattern_may_have (Bits_pattern mask_bytes shift m) x"
proof -
  have ok: "mask_bytes_ok mask_bytes" and sh: "shift < 32"
    using valid by simp_all
  let ?k = "bucket mask_bytes shift x"
  have k: "?k < 32"
    using bucket_less [OF ok, of shift x] narrow by (simp add: mask_bits_def)
  have "(if shift = 0 then x else if shift > 31 then 0 else drop_bit shift x) = drop_bit shift x"
    using sh by simp
  then have "lane_mask_for mask_bytes shift x = push_bit ?k 1"
    using k unat_masked_shift [OF ok, of shift x]
    by (simp only: lane_mask_for_def Let_def bucket_eq [OF ok]) simp
  then have "(word_of_int m :: 32 word) AND lane_mask_for mask_bytes shift x \<noteq> 0
               \<longleftrightarrow> bit (word_of_int m :: 32 word) ?k"
    by (simp only: bit_iff_and_push_bit_not_eq_0)
  also have "\<dots> \<longleftrightarrow> bit m ?k"
    using k by (simp add: bit_word_of_int_iff)
  finally show ?thesis
    by (simp only: bits_pattern_may_have_bit [OF ok])
qed

lemma may_have_m256i_narrow:
  assumes "bits_pattern_valid (Bits_pattern mask_bytes shift m)" and "mask_bytes \<le> 4"
  shows "bits_pattern_may_have_m256i (Bits_pattern mask_bytes shift m) g
           \<longleftrightarrow> (\<exists>x \<in> set (epi32 g). bits_pattern_may_have (Bits_pattern mask_bytes shift m) x)"
  by (simp only: bits_pattern_may_have_m256i.simps m256_is_not_zero_iff epi32_query
        set_map bex_simps lane_query [OF assms])

text \<open>
  C5. The batch query agrees with the eight scalar queries while the mask has at most
  32 bits (\<open>may_have_m256i_narrow\<close>). A mask of 64 bits is cut to its low 32 bits by
  \<open>_mm256_set1_epi32 (mask)\<close>, and a lane whose bucket is 32 or more gets the shifted
  value 0: after \<open>init\<close> and \<open>add (32)\<close> on a filter with a 64-bit mask and shift 0,
  the scalar \<open>may_have (32)\<close> is true and the batch query on eight lanes of 32 is false.
\<close>

theorem batch_query_misses_wide_mask:
  "bits_pattern_valid (Bits_pattern 8 0 0)
   \<and> bits_pattern_add (bits_pattern_init (Bits_pattern 8 0 0)) 32 = Bits_pattern 8 0 (2 ^ 32)
   \<and> bits_pattern_may_have (bits_pattern_add (bits_pattern_init (Bits_pattern 8 0 0)) 32) 32
   \<and> \<not> bits_pattern_may_have_m256i (bits_pattern_add (bits_pattern_init (Bits_pattern 8 0 0)) 32)
          (mm256_set1_epi32 32)"
proof -
  have ok: "mask_bytes_ok 8" by (simp add: mask_bytes_ok_def)
  have b: "bucket 8 0 32 = 32"
    by (simp add: bucket_eq [OF ok] mask_bits_def)
  have "(word_of_int (2 ^ 32) :: 32 word) = 0"
    by simp
  then have "\<not> bits_pattern_may_have_m256i (Bits_pattern 8 0 (2 ^ 32)) (mm256_set1_epi32 32)"
    by (simp only: bits_pattern_may_have_m256i.simps m256_is_not_zero_iff epi32_query) simp
  moreover have "bits_pattern_may_have (Bits_pattern 8 0 (2 ^ 32)) 32"
    by (simp only: bits_pattern_may_have_bit [OF ok] b) (simp add: bit_exp_iff)
  moreover have "bits_pattern_add (bits_pattern_init (Bits_pattern 8 0 0)) 32
                   = Bits_pattern 8 0 (2 ^ 32)"
    by (simp add: mask_for_eq [OF ok] b)
  moreover have "bits_pattern_valid (Bits_pattern 8 0 0)"
    using ok by (simp add: num_bits_def)
  ultimately show ?thesis
    by (simp only: simp_thms)
qed

end
